theory Spec2Isabelle
  imports Complex_Main "HOL-Library.FSet"
begin

section \<open>The crawler of \<^verbatim>\<open>src/crawler.py\<close>\<close>

text \<open>
  The class \<^verbatim>\<open>WebCrawler\<close> keeps a visited set, a target domain and a sqlite
  connection with two tables. The model below follows the file method by method.
  What the file takes from libraries is a field of the record \<open>env\<close>: the HTTP
  request together with the HTML parse, \<^verbatim>\<open>urlparse(...).netloc\<close>,
  \<^verbatim>\<open>urljoin\<close>, the md5 digest, \<^verbatim>\<open>time.sleep\<close>, and the failures of sqlite.
  A library call that may raise returns a sum, \<open>Inl\<close> carrying \<^verbatim>\<open>str(e)\<close> of the
  exception. A method that changes the object and may raise returns the object as
  it has left it together with the exception, if any: what was written before the
  exception stays written.
\<close>

subsection \<open>Data\<close>

type_synonym url = string

text \<open>\<^verbatim>\<open>DatabaseConfig\<close> (lines 11-17).\<close>

record database_config =
  host :: string
  user :: string
  password :: string
  database :: string
  port :: int

text \<open>
  What \<^verbatim>\<open>crawl_page\<close> reads of a fetched and parsed page: \<^verbatim>\<open>response.text\<close>,
  \<^verbatim>\<open>soup.title\<close> (\<open>None\<close> when the document has no title tag, \<open>Some None\<close>
  when the tag has no single string) and, for every anchor of
  \<^verbatim>\<open>soup.find_all('a')\<close> in document order, \<^verbatim>\<open>link.get('href')\<close>.
\<close>

record page =
  response_text :: string
  title_tag :: "string option option"
  hrefs :: "string option list"

text \<open>A row of \<^verbatim>\<open>crawl_results\<close> and a row of \<^verbatim>\<open>crawl_logs\<close> (lines 35-54).\<close>

record result_row =
  r_url :: url
  r_title :: "string option"
  content_hash :: string
  ip_address :: "string option"

record log_row =
  l_url :: url
  status :: string
  error :: "string option"

text \<open>
  The statements the file sends to sqlite: the lookup of line 64, the inserts of
  lines 73 and 83, and \<^verbatim>\<open>commit\<close>.
\<close>

datatype statement =
  Select_content_hash string
| Insert_result result_row
| Insert_log log_row
| Commit

text \<open>
  The library calls. \<open>sqlite_raises\<close> says, from the rows of the two tables and
  the statement, whether sqlite raises something other than IntegrityError on it
  (an encoding error on a parameter, a misuse of the cursor that all the threads
  share, a locked or full file); IntegrityError is decided by the tables themselves,
  in \<open>save_result\<close>. \<open>time_sleep\<close> says whether \<^verbatim>\<open>time.sleep\<close> raises
  (ValueError on a negative length, OverflowError on one too large).

  The method \<^verbatim>\<open>is_valid_url\<close> is called at line 109 and has no definition in
  \<^verbatim>\<open>src/crawler.py\<close>; it is a field as well, given the domain of the crawler and
  the URL, and like every call it may raise. On the class exactly as the file has
  it, the attribute lookup raises AttributeError at every call: that is
  \<open>undefined_method\<close> below, with the text Python gives the exception.
\<close>

record env =
  requests_get :: "url \<Rightarrow> string + page"
  urlparse_netloc :: "string \<Rightarrow> string + string"
  urljoin :: "url \<Rightarrow> string \<Rightarrow> string + url"
  md5_hexdigest :: "string \<Rightarrow> string + string"
  is_valid_url :: "string \<Rightarrow> url \<Rightarrow> string + bool"
  sqlite_raises :: "result_row list \<Rightarrow> log_row list \<Rightarrow> statement \<Rightarrow> string option"
  time_sleep :: "real \<Rightarrow> string option"

definition attribute_error_text :: string where
  "attribute_error_text =
     CHR 0x27 # ''WebCrawler'' @ CHR 0x27 # '' object has no attribute '' @
     CHR 0x27 # ''is_valid_url'' @ [CHR 0x27]"

definition undefined_method :: "string \<Rightarrow> url \<Rightarrow> string + bool" where
  "undefined_method d u = Inl attribute_error_text"

text \<open>
  Modelled from the spec: the method \<^verbatim>\<open>is_valid_url\<close>, missing from the source.
  The spec keeps "only links whose host matches the crawl's target domain exactly
  (no subdomain matching, no path restriction)".
\<close>

definition is_valid_url_spec :: "env \<Rightarrow> string \<Rightarrow> url \<Rightarrow> string + bool" where
  "is_valid_url_spec e d u =
     (case urlparse_netloc e u of Inl x \<Rightarrow> Inl x | Inr h \<Rightarrow> Inr (h = d))"

definition with_spec_filter :: "env \<Rightarrow> env" where
  "with_spec_filter e = e\<lparr>is_valid_url := is_valid_url_spec e\<rparr>"

text \<open>
  The object (lines 20-27). The two tables stand for the sqlite file as the
  connection of the object sees it: rows in insertion order.
\<close>

record crawler =
  start_url :: url
  visited :: "url fset"
  delay :: real
  domain :: string
  max_workers :: int
  db_config :: database_config
  crawl_results :: "result_row list"
  crawl_logs :: "log_row list"

subsection \<open>Construction\<close>

text \<open>
  \<^verbatim>\<open>__init__\<close> and \<^verbatim>\<open>setup_database\<close>. The tables are created only if they do
  not exist, so the rows already in \<^verbatim>\<open>crawler.db\<close> are an input. Connecting
  and creating the tables is taken to succeed.
\<close>

definition init ::
  "env \<Rightarrow> result_row list \<Rightarrow> log_row list \<Rightarrow> url \<Rightarrow> database_config \<Rightarrow> real \<Rightarrow> int
     \<Rightarrow> string + crawler" where
  "init e rows logs su cfg dl mw =
     (case urlparse_netloc e su of
        Inl x \<Rightarrow> Inl x
      | Inr d \<Rightarrow> Inr \<lparr>start_url = su, visited = {||}, delay = dl, domain = d,
                     max_workers = mw, db_config = cfg,
                     crawl_results = rows, crawl_logs = logs\<rparr>)"

subsection \<open>The result store and the log\<close>

definition execute_raises :: "env \<Rightarrow> crawler \<Rightarrow> statement \<Rightarrow> string option" where
  "execute_raises e c s = sqlite_raises e (crawl_results c) (crawl_logs c) s"

text \<open>\<^verbatim>\<open>content.encode()\<close> raises on a string that has no UTF-8 encoding.\<close>

definition get_content_hash :: "env \<Rightarrow> string \<Rightarrow> string + string" where
  "get_content_hash e content = md5_hexdigest e content"

definition is_duplicate_content :: "env \<Rightarrow> crawler \<Rightarrow> string \<Rightarrow> string + bool" where
  "is_duplicate_content e c h =
     (case execute_raises e c (Select_content_hash h) of
        Some x \<Rightarrow> Inl x
      | None \<Rightarrow> Inr (h \<in> set (map content_hash (crawl_results c))))"

text \<open>
  The insert of lines 73-77 with its handler: IntegrityError, raised when one of the
  two UNIQUE columns would repeat, is caught and printed; any other exception
  leaves the method. A failed \<^verbatim>\<open>commit\<close> leaves the row in the table, as the
  connection sees it.
\<close>

definition insert_result :: "env \<Rightarrow> crawler \<Rightarrow> result_row \<Rightarrow> crawler \<times> string option" where
  "insert_result e c row =
     (case execute_raises e c (Insert_result row) of
        Some x \<Rightarrow> (c, Some x)
      | None \<Rightarrow>
          (if r_url row \<in> set (map r_url (crawl_results c)) \<or>
              content_hash row \<in> set (map content_hash (crawl_results c))
           then (c, None)
           else (let c1 = c\<lparr>crawl_results := crawl_results c @ [row]\<rparr>
                 in (c1, execute_raises e c1 Commit))))"

text \<open>\<^verbatim>\<open>save_result\<close> (lines 67-79).\<close>

definition save_result ::
  "env \<Rightarrow> crawler \<Rightarrow> url \<Rightarrow> string option \<Rightarrow> string \<Rightarrow> string option \<Rightarrow> crawler \<times> string option" where
  "save_result e c u t content ip =
     (case get_content_hash e content of
        Inl x \<Rightarrow> (c, Some x)
      | Inr h \<Rightarrow>
          (case is_duplicate_content e c h of
             Inl x \<Rightarrow> (c, Some x)
           | Inr dup \<Rightarrow>
               (if \<not> dup then
                  insert_result e c \<lparr>r_url = u, r_title = t, content_hash = h, ip_address = ip\<rparr>
                else (c, None))))"

text \<open>\<^verbatim>\<open>log_crawl\<close> (lines 81-87): nothing is caught.\<close>

definition log_crawl :: "env \<Rightarrow> crawler \<Rightarrow> url \<Rightarrow> string \<Rightarrow> string option \<Rightarrow> crawler \<times> string option" where
  "log_crawl e c u s err =
     (case execute_raises e c (Insert_log \<lparr>l_url = u, status = s, error = err\<rparr>) of
        Some x \<Rightarrow> (c, Some x)
      | None \<Rightarrow>
          (let c1 = c\<lparr>crawl_logs := crawl_logs c @ [\<lparr>l_url = u, status = s, error = err\<rparr>]\<rparr>
           in (c1, execute_raises e c1 Commit)))"

subsection \<open>The worker\<close>

text \<open>
  The loop of lines 105-110 over the anchors. \<open>links\<close> is the Python set, held as
  a list without repetition in insertion order.
\<close>

fun extract_links :: "env \<Rightarrow> crawler \<Rightarrow> url \<Rightarrow> string option list \<Rightarrow> url list \<Rightarrow> string + url list" where
  "extract_links e c u [] links = Inr links"
| "extract_links e c u (None # hs) links = extract_links e c u hs links"
| "extract_links e c u (Some href # hs) links =
     (if href = [] then extract_links e c u hs links
      else case urljoin e u href of
             Inl x \<Rightarrow> Inl x
           | Inr absolute_url \<Rightarrow>
               (case is_valid_url e (domain c) absolute_url of
                  Inl x \<Rightarrow> Inl x
                | Inr ok \<Rightarrow>
                    extract_links e c u hs
                      (if ok then List.insert absolute_url links else links)))"

text \<open>
  The body of the \<^verbatim>\<open>try\<close> of \<^verbatim>\<open>crawl_page\<close> (lines 92-112): the state it has
  reached, and the exception it raised or the links it returns.
\<close>

definition crawl_page_try :: "env \<Rightarrow> crawler \<Rightarrow> url \<Rightarrow> crawler \<times> (string + url list)" where
  "crawl_page_try e c u =
     (case requests_get e u of
        Inl x \<Rightarrow> (c, Inl x)
      | Inr p \<Rightarrow>
          (let t = (case title_tag p of None \<Rightarrow> Some ''No title'' | Some s \<Rightarrow> s) in
           case urlparse_netloc e u of
             Inl x \<Rightarrow> (c, Inl x)
           | Inr ip \<Rightarrow>
               (case save_result e c u t (response_text p) (Some ip) of
                  (c1, Some x) \<Rightarrow> (c1, Inl x)
                | (c1, None) \<Rightarrow>
                    (case log_crawl e c1 u ''success'' None of
                       (c2, Some x) \<Rightarrow> (c2, Inl x)
                     | (c2, None) \<Rightarrow> (c2, extract_links e c2 u (hrefs p) [])))))"

text \<open>
  \<^verbatim>\<open>crawl_page\<close> with its handler (lines 114-116). The handler calls
  \<^verbatim>\<open>log_crawl\<close> outside any \<^verbatim>\<open>try\<close>: what that call raises leaves the worker.
\<close>

definition crawl_page :: "env \<Rightarrow> crawler \<Rightarrow> url \<Rightarrow> crawler \<times> (string + url list)" where
  "crawl_page e c u =
     (case crawl_page_try e c u of
        (c1, Inl x) \<Rightarrow>
          (case log_crawl e c1 u ''error'' (Some x) of
             (c2, Some y) \<Rightarrow> (c2, Inl y)
           | (c2, None) \<Rightarrow> (c2, Inr []))
      | (c1, Inr links) \<Rightarrow> (c1, Inr links))"

subsection \<open>The scheduler\<close>

text \<open>The inner loop of lines 125-130, from the current \<open>queue\<close> and \<open>batch\<close>.\<close>

fun take_batch :: "int \<Rightarrow> url fset \<Rightarrow> url list \<Rightarrow> url list \<Rightarrow> url fset \<times> url list \<times> url list" where
  "take_batch mw vis [] batch = (vis, [], batch)"
| "take_batch mw vis (u # queue) batch =
     (if int (length batch) < mw then
        (if u |\<notin>| vis then take_batch mw (finsert u vis) queue (batch @ [u])
         else take_batch mw vis queue batch)
      else (vis, u # queue, batch))"

text \<open>
  The workers of one batch (line 136): every URL of the batch is submitted, and
  every worker runs to its end, also when another one raises (the executor is left
  through its \<^verbatim>\<open>with\<close> block, which waits for all of them). The pool runs them
  on threads over one cursor; the model runs them one after the other in batch
  order, which is one of the schedules of the pool, and gives what each future
  holds, links or exception, in that order.
\<close>

fun run_batch :: "env \<Rightarrow> crawler \<Rightarrow> url list \<Rightarrow> crawler \<times> (string + url list) list" where
  "run_batch e c [] = (c, [])"
| "run_batch e c (u # us) =
     (case crawl_page e c u of
        (c1, r) \<Rightarrow> (case run_batch e c1 us of (c2, rest) \<Rightarrow> (c2, r # rest)))"

text \<open>Line 141: what one worker found goes to the end of the queue.\<close>

definition extend_queue :: "url fset \<Rightarrow> url list \<Rightarrow> url list \<Rightarrow> url list" where
  "extend_queue vis queue new_links = queue @ filter (\<lambda>link. link |\<notin>| vis) new_links"

text \<open>
  The loop of lines 139-141 over the futures: \<^verbatim>\<open>future.result()\<close> raises again
  what the worker raised, which ends the loop and leaves \<^verbatim>\<open>crawl\<close>.
\<close>

fun collect :: "url fset \<Rightarrow> url list \<Rightarrow> (string + url list) list \<Rightarrow> url list \<times> string option" where
  "collect vis queue [] = (queue, None)"
| "collect vis queue (Inl x # rs) = (queue, Some x)"
| "collect vis queue (Inr new_links # rs) = collect vis (extend_queue vis queue new_links) rs"

text \<open>
  What a call of \<^verbatim>\<open>crawl\<close> leaves: the object, the local \<open>queue\<close> at the end,
  the batches it dispatched in order, and the exception that left it, if any.
\<close>

record run =
  final :: crawler
  pending :: "url list"
  batches :: "url list list"
  raised :: "string option"

subsection \<open>The loop and its measure\<close>

text \<open>
  A batch that is not empty makes the visited set larger, and the workers leave
  everything but the two tables alone: that is what makes the loop below a total
  function.
\<close>

lemma take_batch_card:
  "take_batch mw vis queue batch = (vis', queue', batch') \<Longrightarrow>
     fcard vis' + length batch = fcard vis + length batch'"
proof (induction mw vis queue batch rule: take_batch.induct)
  case (1 mw vis batch)
  then show ?case by simp
next
  case (2 mw vis u queue batch)
  then show ?case
    by (auto split: if_splits simp: fcard_finsert_disjoint)
qed

definition same_but_tables :: "crawler \<Rightarrow> crawler \<Rightarrow> bool" where
  "same_but_tables c c' \<longleftrightarrow>
     start_url c' = start_url c \<and> visited c' = visited c \<and> delay c' = delay c \<and>
     domain c' = domain c \<and> max_workers c' = max_workers c \<and> db_config c' = db_config c"

lemma same_but_tables_refl: "same_but_tables c c"
  by (simp add: same_but_tables_def)

lemma same_but_tables_trans:
  "same_but_tables c c1 \<Longrightarrow> same_but_tables c1 c2 \<Longrightarrow> same_but_tables c c2"
  by (simp add: same_but_tables_def)

lemma same_but_tables_fields:
  assumes "same_but_tables c c'"
  shows "visited c' = visited c" and "start_url c' = start_url c" and "domain c' = domain c"
    and "max_workers c' = max_workers c" and "delay c' = delay c"
    and "db_config c' = db_config c"
  using assms by (simp_all add: same_but_tables_def)

lemma same_but_tables_eq:
  "same_but_tables c c' \<Longrightarrow>
     c'\<lparr>crawl_results := crawl_results c, crawl_logs := crawl_logs c\<rparr> = c"
  by (rule crawler.equality) (simp_all add: same_but_tables_def)

lemma insert_result_same: "same_but_tables c (fst (insert_result e c row))"
  by (simp add: insert_result_def same_but_tables_def Let_def split: option.splits)

lemma save_result_same: "same_but_tables c (fst (save_result e c u t content ip))"
  using insert_result_same [of c e]
  by (simp add: save_result_def same_but_tables_refl split: sum.splits)

lemma log_crawl_same: "same_but_tables c (fst (log_crawl e c u s err))"
  by (simp add: log_crawl_def same_but_tables_def Let_def split: option.splits)

lemma crawl_page_try_same: "same_but_tables c (fst (crawl_page_try e c u))"
proof (cases "requests_get e u")
  case (Inl x)
  then show ?thesis
    by (simp add: crawl_page_try_def same_but_tables_refl)
next
  case p: (Inr p)
  show ?thesis
  proof (cases "urlparse_netloc e u")
    case (Inl x)
    with p show ?thesis
      by (simp add: crawl_page_try_def same_but_tables_refl)
  next
    case (Inr ip)
    let ?t = "case title_tag p of None \<Rightarrow> Some ''No title'' | Some s \<Rightarrow> s"
    obtain c1 r1 where s: "save_result e c u ?t (response_text p) (Some ip) = (c1, r1)"
      by (cases "save_result e c u ?t (response_text p) (Some ip)")
    have 1: "same_but_tables c c1"
      using save_result_same [of c e u ?t "response_text p" "Some ip"] s by simp
    obtain c2 r2 where l: "log_crawl e c1 u ''success'' None = (c2, r2)"
      by (cases "log_crawl e c1 u ''success'' None")
    have "same_but_tables c1 c2"
      using log_crawl_same [of c1 e u "''success''" None] l by simp
    with 1 have 2: "same_but_tables c c2"
      by (rule same_but_tables_trans)
    show ?thesis
      using p Inr s l 1 2
      by (cases r1; cases r2) (simp_all add: crawl_page_try_def)
  qed
qed

lemma crawl_page_same: "same_but_tables c (fst (crawl_page e c u))"
proof (cases "crawl_page_try e c u")
  case (Pair c1 r)
  then have 1: "same_but_tables c c1"
    using crawl_page_try_same [of c e u] by simp
  show ?thesis
  proof (cases r)
    case (Inl x)
    obtain c2 r2 where l: "log_crawl e c1 u ''error'' (Some x) = (c2, r2)"
      by (cases "log_crawl e c1 u ''error'' (Some x)")
    have "same_but_tables c1 c2"
      using log_crawl_same [of c1 e u "''error''" "Some x"] l by simp
    with 1 have "same_but_tables c c2"
      by (rule same_but_tables_trans)
    then show ?thesis
      using Pair Inl l by (cases r2) (simp_all add: crawl_page_def)
  next
    case (Inr links)
    with Pair 1 show ?thesis
      by (simp add: crawl_page_def)
  qed
qed

lemma run_batch_same: "same_but_tables c (fst (run_batch e c us))"
proof (induction us arbitrary: c)
  case Nil
  show ?case by (simp add: same_but_tables_refl)
next
  case (Cons u us)
  obtain c1 r where p: "crawl_page e c u = (c1, r)"
    by (cases "crawl_page e c u")
  obtain c2 rest where b: "run_batch e c1 us = (c2, rest)"
    by (cases "run_batch e c1 us")
  have "same_but_tables c c1"
    using crawl_page_same [of c e u] p by simp
  moreover have "same_but_tables c1 c2"
    using Cons.IH [of c1] b by simp
  ultimately have "same_but_tables c c2"
    by (rule same_but_tables_trans)
  then show ?case
    using p b by simp
qed

lemma run_batch_fields:
  assumes "run_batch e c us = (c2, results)"
  shows "visited c2 = visited c" and "start_url c2 = start_url c" and "domain c2 = domain c"
    and "max_workers c2 = max_workers c" and "delay c2 = delay c"
    and "db_config c2 = db_config c"
  using same_but_tables_fields [OF run_batch_same [of c e us]] assms by simp_all

lemma crawl_loop_decreases:
  assumes "(vis, y) = take_batch mw (visited c) queue []"
    and "(queue1, batch) = y"
    and "batch \<noteq> []"
    and "(c2, results) = run_batch e (c\<lparr>visited := vis\<rparr>) batch"
  shows "fcard (visited c) < fcard (visited c2)"
proof -
  have "take_batch mw (visited c) queue [] = (vis, queue1, batch)"
    using assms(1,2) by simp
  from take_batch_card [OF this] assms(3) have "fcard (visited c) < fcard vis"
    by (cases batch) simp_all
  moreover have "visited c2 = vis"
    using run_batch_fields(1) [OF assms(4) [symmetric]] by simp
  ultimately show ?thesis by simp
qed

text \<open>
  The loop of lines 123-143. It is left by the exception of a worker, raised again
  at line 140, or by what \<^verbatim>\<open>time.sleep\<close> raises at line 143.
\<close>

function crawl_loop :: "env \<Rightarrow> int \<Rightarrow> crawler \<Rightarrow> url list \<Rightarrow> run" where
  "crawl_loop e max_pages c queue =
     (if queue \<noteq> [] \<and> int (fcard (visited c)) < max_pages then
        (case take_batch (max_workers c) (visited c) queue [] of
           (vis, queue1, batch) \<Rightarrow>
             (if batch = [] then
                \<lparr>final = c\<lparr>visited := vis\<rparr>, pending = queue1, batches = [], raised = None\<rparr>
              else
                (case run_batch e (c\<lparr>visited := vis\<rparr>) batch of
                   (c2, results) \<Rightarrow>
                     (case collect (visited c2) queue1 results of
                        (queue2, Some x) \<Rightarrow>
                          \<lparr>final = c2, pending = queue2, batches = [batch], raised = Some x\<rparr>
                      | (queue2, None) \<Rightarrow>
                          (case time_sleep e (delay c2) of
                             Some x \<Rightarrow>
                               \<lparr>final = c2, pending = queue2, batches = [batch], raised = Some x\<rparr>
                           | None \<Rightarrow>
                               (let r = crawl_loop e max_pages c2 queue2
                                in r\<lparr>batches := batch # batches r\<rparr>))))))
      else \<lparr>final = c, pending = queue, batches = [], raised = None\<rparr>)"
  by pat_completeness auto
termination
  apply (relation "measure (\<lambda>(e, max_pages, c, queue). nat (max_pages - int (fcard (visited c))))")
   apply simp
  apply simp
  apply (rule crawl_loop_decreases; assumption)
  done

declare crawl_loop.simps [simp del]

text \<open>
  \<^verbatim>\<open>crawl\<close> (lines 118-143). The executor refuses a pool of no workers with
  ValueError before the loop starts.
\<close>

definition crawl :: "env \<Rightarrow> crawler \<Rightarrow> int \<Rightarrow> run" where
  "crawl e c max_pages =
     (if max_workers c \<le> 0 then
        \<lparr>final = c, pending = [start_url c], batches = [],
         raised = Some ''max_workers must be greater than 0''\<rparr>
      else crawl_loop e max_pages c [start_url c])"

subsection \<open>A small web to run the crawler on\<close>

text \<open>
  Five pages. URLs are written host first, the host ending at the first slash.
  The seed links to two pages of its own host and to one of another host; the two
  pages have the same body and both link to a fourth page, whose only anchor has
  an href that \<^verbatim>\<open>urljoin\<close> refuses (an unclosed bracket is an invalid IPv6
  host, ValueError). sqlite raises nothing, except on a log entry for the URL
  \<open>a/bad\<close>, which stands for a URL that has no UTF-8 encoding (a lone
  surrogate): binding it as a parameter raises UnicodeEncodeError. No page answers
  at that URL.
\<close>

definition example_web :: "(url \<times> page) list" where
  "example_web =
     [(''a/'', \<lparr>response_text = ''seed'', title_tag = Some (Some ''Home''),
               hrefs = [Some ''a/x'', None, Some ''b/'', Some [], Some ''a/y'']\<rparr>),
      (''a/x'', \<lparr>response_text = ''same'', title_tag = None, hrefs = [Some ''a/z'']\<rparr>),
      (''a/y'', \<lparr>response_text = ''same'', title_tag = None, hrefs = [Some ''a/z'']\<rparr>),
      (''a/z'', \<lparr>response_text = ''last'', title_tag = Some None, hrefs = [Some ''['']\<rparr>),
      (''b/'', \<lparr>response_text = ''other'', title_tag = None, hrefs = []\<rparr>)]"

fun example_sqlite :: "result_row list \<Rightarrow> log_row list \<Rightarrow> statement \<Rightarrow> string option" where
  "example_sqlite rows logs (Insert_log entry) =
     (if l_url entry = ''a/bad'' then Some ''UnicodeEncodeError'' else None)"
| "example_sqlite rows logs s = None"

definition example_env :: env where
  "example_env =
     \<lparr>requests_get = (\<lambda>u. case map_of example_web u of
                             None \<Rightarrow> Inl ''ConnectionError'' | Some p \<Rightarrow> Inr p),
      urlparse_netloc = (\<lambda>u. Inr (takeWhile (\<lambda>ch. ch \<noteq> CHR ''/'') u)),
      urljoin = (\<lambda>base href. if href = ''['' then Inl ''Invalid IPv6 URL'' else Inr href),
      md5_hexdigest = (\<lambda>content. Inr content),
      is_valid_url = undefined_method,
      sqlite_raises = example_sqlite,
      time_sleep = (\<lambda>secs. if secs < 0 then Some ''sleep length must be non-negative''
                            else if 9223372036 < secs
                            then Some ''timestamp too large to convert to C _PyTime_t''
                            else None)\<rparr>"




definition example_crawler :: "int \<Rightarrow> crawler" where
  "example_crawler mw =
     \<lparr>start_url = ''a/'', visited = {||}, delay = 1, domain = ''a'', max_workers = mw,
      db_config = \<lparr>host = ''localhost'', user = ''crawler_user'',
                    password = ''secure_password'', database = ''crawler_db'', port = 3306\<rparr>,
      crawl_results = [], crawl_logs = []\<rparr>"


subsection \<open>Relations between two states of the object\<close>

text \<open>The same tables and the same domain: all that a worker reads of the object.\<close>

definition agree :: "crawler \<Rightarrow> crawler \<Rightarrow> bool" where
  "agree c c' \<longleftrightarrow>
     crawl_results c' = crawl_results c \<and> crawl_logs c' = crawl_logs c \<and> domain c' = domain c"

section \<open>Properties\<close>

subsection \<open>Unfolding the loop\<close>

lemma crawl_loop_stop:
  "queue = [] \<or> \<not> int (fcard (visited c)) < max_pages \<Longrightarrow>
     crawl_loop e max_pages c queue = \<lparr>final = c, pending = queue, batches = [], raised = None\<rparr>"
  by (subst crawl_loop.simps) auto

lemma crawl_loop_empty_batch:
  "queue \<noteq> [] \<Longrightarrow> int (fcard (visited c)) < max_pages \<Longrightarrow>
   take_batch (max_workers c) (visited c) queue [] = (vis, queue1, []) \<Longrightarrow>
     crawl_loop e max_pages c queue =
       \<lparr>final = c\<lparr>visited := vis\<rparr>, pending = queue1, batches = [], raised = None\<rparr>"
  by (subst crawl_loop.simps) simp

lemma crawl_loop_worker_raises:
  "queue \<noteq> [] \<Longrightarrow> int (fcard (visited c)) < max_pages \<Longrightarrow>
   take_batch (max_workers c) (visited c) queue [] = (vis, queue1, batch) \<Longrightarrow> batch \<noteq> [] \<Longrightarrow>
   run_batch e (c\<lparr>visited := vis\<rparr>) batch = (c2, results) \<Longrightarrow>
   collect (visited c2) queue1 results = (queue2, Some x) \<Longrightarrow>
     crawl_loop e max_pages c queue =
       \<lparr>final = c2, pending = queue2, batches = [batch], raised = Some x\<rparr>"
  by (subst crawl_loop.simps) simp

lemma crawl_loop_sleep_raises:
  "queue \<noteq> [] \<Longrightarrow> int (fcard (visited c)) < max_pages \<Longrightarrow>
   take_batch (max_workers c) (visited c) queue [] = (vis, queue1, batch) \<Longrightarrow> batch \<noteq> [] \<Longrightarrow>
   run_batch e (c\<lparr>visited := vis\<rparr>) batch = (c2, results) \<Longrightarrow>
   collect (visited c2) queue1 results = (queue2, None) \<Longrightarrow>
   time_sleep e (delay c2) = Some x \<Longrightarrow>
     crawl_loop e max_pages c queue =
       \<lparr>final = c2, pending = queue2, batches = [batch], raised = Some x\<rparr>"
  by (subst crawl_loop.simps) simp

lemma crawl_loop_step:
  "queue \<noteq> [] \<Longrightarrow> int (fcard (visited c)) < max_pages \<Longrightarrow>
   take_batch (max_workers c) (visited c) queue [] = (vis, queue1, batch) \<Longrightarrow> batch \<noteq> [] \<Longrightarrow>
   run_batch e (c\<lparr>visited := vis\<rparr>) batch = (c2, results) \<Longrightarrow>
   collect (visited c2) queue1 results = (queue2, None) \<Longrightarrow>
   time_sleep e (delay c2) = None \<Longrightarrow>
     crawl_loop e max_pages c queue =
       (crawl_loop e max_pages c2 queue2)
         \<lparr>batches := batch # batches (crawl_loop e max_pages c2 queue2)\<rparr>"
  by (subst crawl_loop.simps) (simp add: Let_def)

text \<open>Induction over the batches of a call, one case for each way out of an iteration.\<close>

lemma crawl_loop_rule [case_names stop empty_batch worker_raises sleep_raises step]:
  assumes stop: "\<And>c queue. queue = [] \<or> \<not> int (fcard (visited c)) < max_pages \<Longrightarrow>
      P c queue \<lparr>final = c, pending = queue, batches = [], raised = None\<rparr>"
    and empty: "\<And>c queue vis queue1. queue \<noteq> [] \<Longrightarrow> int (fcard (visited c)) < max_pages \<Longrightarrow>
      take_batch (max_workers c) (visited c) queue [] = (vis, queue1, []) \<Longrightarrow>
      P c queue \<lparr>final = c\<lparr>visited := vis\<rparr>, pending = queue1, batches = [], raised = None\<rparr>"
    and worker: "\<And>c queue vis queue1 batch c2 results queue2 x.
      queue \<noteq> [] \<Longrightarrow> int (fcard (visited c)) < max_pages \<Longrightarrow>
      take_batch (max_workers c) (visited c) queue [] = (vis, queue1, batch) \<Longrightarrow> batch \<noteq> [] \<Longrightarrow>
      run_batch e (c\<lparr>visited := vis\<rparr>) batch = (c2, results) \<Longrightarrow>
      collect (visited c2) queue1 results = (queue2, Some x) \<Longrightarrow>
      P c queue \<lparr>final = c2, pending = queue2, batches = [batch], raised = Some x\<rparr>"
    and sleep: "\<And>c queue vis queue1 batch c2 results queue2 x.
      queue \<noteq> [] \<Longrightarrow> int (fcard (visited c)) < max_pages \<Longrightarrow>
      take_batch (max_workers c) (visited c) queue [] = (vis, queue1, batch) \<Longrightarrow> batch \<noteq> [] \<Longrightarrow>
      run_batch e (c\<lparr>visited := vis\<rparr>) batch = (c2, results) \<Longrightarrow>
      collect (visited c2) queue1 results = (queue2, None) \<Longrightarrow>
      time_sleep e (delay c2) = Some x \<Longrightarrow>
      P c queue \<lparr>final = c2, pending = queue2, batches = [batch], raised = Some x\<rparr>"
    and step: "\<And>c queue vis queue1 batch c2 results queue2 r.
      queue \<noteq> [] \<Longrightarrow> int (fcard (visited c)) < max_pages \<Longrightarrow>
      take_batch (max_workers c) (visited c) queue [] = (vis, queue1, batch) \<Longrightarrow> batch \<noteq> [] \<Longrightarrow>
      run_batch e (c\<lparr>visited := vis\<rparr>) batch = (c2, results) \<Longrightarrow>
      collect (visited c2) queue1 results = (queue2, None) \<Longrightarrow>
      time_sleep e (delay c2) = None \<Longrightarrow>
      r = crawl_loop e max_pages c2 queue2 \<Longrightarrow>
      P c2 queue2 r \<Longrightarrow>
      P c queue (r\<lparr>batches := batch # batches r\<rparr>)"
  shows "P c queue (crawl_loop e max_pages c queue)"
  using assms
proof (induction e max_pages c queue rule: crawl_loop.induct)
  case (1 e max_pages c queue)
  note stop = "1.prems"(1) and empty = "1.prems"(2) and worker = "1.prems"(3)
    and sleep = "1.prems"(4) and step = "1.prems"(5)
  show ?case
  proof (cases "queue \<noteq> [] \<and> int (fcard (visited c)) < max_pages")
    case False
    then have h: "queue = [] \<or> \<not> int (fcard (visited c)) < max_pages"
      by simp
    show ?thesis
      using stop [OF h] by (simp add: crawl_loop_stop [OF h])
  next
    case True
    then have q: "queue \<noteq> []" and b: "int (fcard (visited c)) < max_pages"
      by simp_all
    obtain vis queue1 batch where tb:
      "take_batch (max_workers c) (visited c) queue [] = (vis, queue1, batch)"
      by (cases "take_batch (max_workers c) (visited c) queue []")
    show ?thesis
    proof (cases "batch = []")
      case True
      with tb have tb': "take_batch (max_workers c) (visited c) queue [] = (vis, queue1, [])"
        by simp
      show ?thesis
        using empty [OF q b tb'] by (simp add: crawl_loop_empty_batch [OF q b tb'])
    next
      case False
      obtain c2 results where rb: "run_batch e (c\<lparr>visited := vis\<rparr>) batch = (c2, results)"
        by (cases "run_batch e (c\<lparr>visited := vis\<rparr>) batch")
      obtain queue2 w where co: "collect (visited c2) queue1 results = (queue2, w)"
        by (cases "collect (visited c2) queue1 results")
      show ?thesis
      proof (cases w)
        case (Some x)
        with co have co': "collect (visited c2) queue1 results = (queue2, Some x)"
          by simp
        show ?thesis
          using worker [OF q b tb False rb co']
          by (simp add: crawl_loop_worker_raises [OF q b tb False rb co'])
      next
        case None
        with co have co': "collect (visited c2) queue1 results = (queue2, None)"
          by simp
        show ?thesis
        proof (cases "time_sleep e (delay c2)")
          case (Some x)
          show ?thesis
            using sleep [OF q b tb False rb co' Some]
            by (simp add: crawl_loop_sleep_raises [OF q b tb False rb co' Some])
        next
          case ns: None
          have ih: "P c2 queue2 (crawl_loop e max_pages c2 queue2)"
            using "1.IH" [OF \<open>queue \<noteq> [] \<and> _\<close> tb [symmetric] refl False rb [symmetric]
                co' [symmetric] refl ns] "1.prems"
            by simp
          show ?thesis
            using step [OF q b tb False rb co' ns refl ih]
            by (simp add: crawl_loop_step [OF q b tb False rb co' ns])
        qed
      qed
    qed
  qed
qed

subsection \<open>Selecting a batch, and the loop around it\<close>

lemma take_batch_spec:
  "take_batch mw vis queue batch = (vis', queue', batch') \<Longrightarrow>
     \<exists>new. batch' = batch @ new \<and> distinct new \<and> fset_of_list new |\<inter>| vis = {||} \<and>
       vis' = vis |\<union>| fset_of_list new \<and> set new \<subseteq> set queue \<and> set queue' \<subseteq> set queue"
proof (induction mw vis queue batch rule: take_batch.induct)
  case (1 mw vis batch)
  then show ?case by simp
next
  case (2 mw vis u queue batch)
  show ?case
  proof (cases "int (length batch) < mw")
    case False
    with "2.prems" show ?thesis by auto
  next
    case room: True
    show ?thesis
    proof (cases "u |\<notin>| vis")
      case True
      with room "2.prems" have "take_batch mw (finsert u vis) queue (batch @ [u]) = (vis', queue', batch')"
        by simp
      from "2.IH"(1) [OF room True this] obtain new where n:
        "batch' = (batch @ [u]) @ new" "distinct new" "fset_of_list new |\<inter>| finsert u vis = {||}"
        "vis' = finsert u vis |\<union>| fset_of_list new" "set new \<subseteq> set queue" "set queue' \<subseteq> set queue"
        by blast
      from n(3) have "u \<notin> set new"
        by (metis disjoint_iff_fnot_equal finsertI1 fset_of_list_elem)
      moreover from n(3) have "fset_of_list new |\<inter>| vis = {||}"
        by auto
      ultimately have "batch' = batch @ (u # new) \<and> distinct (u # new) \<and>
          fset_of_list (u # new) |\<inter>| vis = {||} \<and> vis' = vis |\<union>| fset_of_list (u # new) \<and>
          set (u # new) \<subseteq> set (u # queue) \<and> set queue' \<subseteq> set (u # queue)"
        using n True by auto
      then show ?thesis by blast
    next
      case False
      with room "2.prems" have "take_batch mw vis queue batch = (vis', queue', batch')"
        by simp
      from "2.IH"(2) [OF room False this] show ?thesis
        by auto
    qed
  qed
qed

lemma take_batch_length:
  "take_batch mw vis queue batch = (vis', queue', batch') \<Longrightarrow>
     int (length batch') \<le> max mw (int (length batch))"
  by (induction mw vis queue batch rule: take_batch.induct) (auto split: if_splits)

lemma take_batch_exhausts:
  "take_batch mw vis queue batch = (vis', queue', batch') \<Longrightarrow>
     int (length batch') < mw \<Longrightarrow> queue' = []"
  by (induction mw vis queue batch rule: take_batch.induct) (auto split: if_splits)

text \<open>The selection of one batch, from an empty batch, as the loop calls it.\<close>

lemma take_batch_fresh:
  assumes "take_batch mw vis queue [] = (vis', queue', batch)"
  shows "distinct batch" and "fset_of_list batch |\<inter>| vis = {||}"
    and "vis' = vis |\<union>| fset_of_list batch" and "set batch \<subseteq> set queue"
    and "set queue' \<subseteq> set queue" and "fcard vis' = fcard vis + length batch"
    and "int (length batch) \<le> max mw 0"
  using take_batch_spec [OF assms] take_batch_card [OF assms] take_batch_length [OF assms]
  by auto

lemma fcard_fset_of_list_distinct: "distinct xs \<Longrightarrow> fcard (fset_of_list xs) = length xs"
  by (induction xs) (simp_all add: fcard_finsert_disjoint fset_of_list_elem)

text \<open>One iteration that dispatches a batch, whichever way it is left.\<close>

lemma batch_dispatched:
  assumes "take_batch (max_workers c) (visited c) queue [] = (vis, queue1, batch)"
    and "run_batch e (c\<lparr>visited := vis\<rparr>) batch = (c2, results)"
  shows "distinct batch" and "fset_of_list batch |\<inter>| visited c = {||}"
    and "visited c2 = visited c |\<union>| fset_of_list batch"
    and "fcard (visited c2) = fcard (visited c) + length batch"
    and "int (length batch) \<le> max (max_workers c) 0"
    and "max_workers c2 = max_workers c"
  using take_batch_fresh [OF assms(1)] run_batch_fields(1,4) [OF assms(2)]
  by simp_all

lemma crawl_loop_dispatch:
  "distinct (concat (batches (crawl_loop e max_pages c queue))) \<and>
   fset_of_list (concat (batches (crawl_loop e max_pages c queue))) |\<inter>| visited c = {||} \<and>
   visited (final (crawl_loop e max_pages c queue)) =
     visited c |\<union>| fset_of_list (concat (batches (crawl_loop e max_pages c queue)))"
proof (induction c queue rule: crawl_loop_rule [where e = e and max_pages = max_pages])
  case (stop c queue)
  show ?case by simp
next
  case (empty_batch c queue vis queue1)
  from take_batch_fresh(3) [OF empty_batch(3)] show ?case by simp
next
  case (worker_raises c queue vis queue1 batch c2 results queue2 x)
  from batch_dispatched(1,2,3) [OF worker_raises(3,5)] show ?case by simp
next
  case (sleep_raises c queue vis queue1 batch c2 results queue2 x)
  from batch_dispatched(1,2,3) [OF sleep_raises(3,5)] show ?case by simp
next
  case (step c queue vis queue1 batch c2 results queue2 r)
  note bd = batch_dispatched(1,2,3) [OF step(3,5)]
  from step(9) bd(3) have ih: "distinct (concat (batches r))"
    "fset_of_list (concat (batches r)) |\<inter>| (visited c |\<union>| fset_of_list batch) = {||}"
    "visited (final r) = (visited c |\<union>| fset_of_list batch) |\<union>| fset_of_list (concat (batches r))"
    by simp_all
  from ih(2) have d1: "set batch \<inter> set (concat (batches r)) = {}"
    by (auto simp: fset_of_list_elem dest!: fset_cong [THEN iffD2] simp del: set_concat)
  have d2: "fset_of_list (concat (batches r)) |\<inter>| visited c = {||}"
    using ih(2) by auto
  show ?case
    using ih(1,3) bd(1,2) d1 d2 by (auto simp del: set_concat)
qed

lemma crawl_loop_progress:
  "length (batches (crawl_loop e max_pages c queue)) \<le> nat (max_pages - int (fcard (visited c))) \<and>
   [] \<notin> set (batches (crawl_loop e max_pages c queue))"
proof (induction c queue rule: crawl_loop_rule [where e = e and max_pages = max_pages])
  case (stop c queue)
  show ?case by simp
next
  case (empty_batch c queue vis queue1)
  show ?case by simp
next
  case (worker_raises c queue vis queue1 batch c2 results queue2 x)
  then show ?case by simp
next
  case (sleep_raises c queue vis queue1 batch c2 results queue2 x)
  then show ?case by simp
next
  case (step c queue vis queue1 batch c2 results queue2 r)
  have "fcard (visited c2) = fcard (visited c) + length batch"
    using batch_dispatched(4) [OF step(3,5)] .
  with step(4) have "fcard (visited c) < fcard (visited c2)"
    by (cases batch) simp_all
  with step(2,4,9) show ?case
    by auto
qed

lemma crawl_loop_budget:
  "int (fcard (visited (final (crawl_loop e max_pages c queue)))) \<le>
     max (int (fcard (visited c))) (max_pages + max_workers c - 1) \<and>
   list_all (\<lambda>b. int (length b) \<le> max_workers c) (batches (crawl_loop e max_pages c queue))"
proof (induction c queue rule: crawl_loop_rule [where e = e and max_pages = max_pages])
  case (stop c queue)
  show ?case by simp
next
  case (empty_batch c queue vis queue1)
  from take_batch_fresh(3) [OF empty_batch(3)] show ?case by simp
next
  case (worker_raises c queue vis queue1 batch c2 results queue2 x)
  note bd = batch_dispatched [OF worker_raises(3,5)]
  have "int (length batch) \<le> max_workers c"
    using bd(5) worker_raises(4) by (cases batch) auto
  with bd(4) worker_raises(2) show ?case
    by simp
next
  case (sleep_raises c queue vis queue1 batch c2 results queue2 x)
  note bd = batch_dispatched [OF sleep_raises(3,5)]
  have "int (length batch) \<le> max_workers c"
    using bd(5) sleep_raises(4) by (cases batch) auto
  with bd(4) sleep_raises(2) show ?case
    by simp
next
  case (step c queue vis queue1 batch c2 results queue2 r)
  note bd = batch_dispatched [OF step(3,5)]
  have l: "int (length batch) \<le> max_workers c"
    using bd(5) step(4) by (cases batch) auto
  with bd(4) step(2) have "int (fcard (visited c2)) \<le> max_pages + max_workers c - 1"
    by simp
  with step(9) bd(6) l show ?case
    by auto
qed

lemma crawl_loop_ends:
  "0 < max_workers c \<Longrightarrow> raised (crawl_loop e max_pages c queue) = None \<Longrightarrow>
     pending (crawl_loop e max_pages c queue) = [] \<or>
     max_pages \<le> int (fcard (visited (final (crawl_loop e max_pages c queue))))"
proof (induction c queue rule: crawl_loop_rule [where e = e and max_pages = max_pages])
  case (stop c queue)
  then show ?case by auto
next
  case (empty_batch c queue vis queue1)
  from take_batch_exhausts [OF empty_batch(3)] empty_batch(4) show ?case by simp
next
  case (worker_raises c queue vis queue1 batch c2 results queue2 x)
  then show ?case by simp
next
  case (sleep_raises c queue vis queue1 batch c2 results queue2 x)
  then show ?case by simp
next
  case (step c queue vis queue1 batch c2 results queue2 r)
  have "max_workers c2 = max_workers c"
    using batch_dispatched(6) [OF step(3,5)] .
  with step(9,10,11) show ?case
    by simp
qed

subsection \<open>Two runs on the small web\<close>

lemmas example_defs = example_env_def example_web_def example_crawler_def with_spec_filter_def
  is_valid_url_spec_def undefined_method_def attribute_error_text_def crawl_page_def
  crawl_page_try_def save_result_def insert_result_def log_crawl_def get_content_hash_def
  is_duplicate_content_def execute_raises_def

lemma example_run_3:
  "crawl (with_spec_filter example_env) (example_crawler 2) 3 =
     \<lparr>final = (example_crawler 2)\<lparr>visited := {|''a/x'', ''a/y'', ''a/''|},
        crawl_results :=
          [\<lparr>r_url = ''a/'', r_title = Some ''Home'', content_hash = ''seed'', ip_address = Some ''a''\<rparr>,
           \<lparr>r_url = ''a/y'', r_title = Some ''No title'', content_hash = ''same'',
             ip_address = Some ''a''\<rparr>],
        crawl_logs :=
          [\<lparr>l_url = ''a/'', status = ''success'', error = None\<rparr>,
           \<lparr>l_url = ''a/y'', status = ''success'', error = None\<rparr>,
           \<lparr>l_url = ''a/x'', status = ''success'', error = None\<rparr>]\<rparr>,
      pending = [''a/z'', ''a/z''], batches = [[''a/''], [''a/y'', ''a/x'']], raised = None\<rparr>"
  by (simp add: crawl_def crawl_loop.simps example_defs extend_queue_def fcard_finsert_if
      fcard_fempty Let_def)

lemma example_run_10:
  "crawl (with_spec_filter example_env) (example_crawler 2) 10 =
     \<lparr>final = (example_crawler 2)\<lparr>visited := {|''a/z'', ''a/x'', ''a/y'', ''a/''|},
        crawl_results :=
          [\<lparr>r_url = ''a/'', r_title = Some ''Home'', content_hash = ''seed'', ip_address = Some ''a''\<rparr>,
           \<lparr>r_url = ''a/y'', r_title = Some ''No title'', content_hash = ''same'',
             ip_address = Some ''a''\<rparr>,
           \<lparr>r_url = ''a/z'', r_title = None, content_hash = ''last'', ip_address = Some ''a''\<rparr>],
        crawl_logs :=
          [\<lparr>l_url = ''a/'', status = ''success'', error = None\<rparr>,
           \<lparr>l_url = ''a/y'', status = ''success'', error = None\<rparr>,
           \<lparr>l_url = ''a/x'', status = ''success'', error = None\<rparr>,
           \<lparr>l_url = ''a/z'', status = ''success'', error = None\<rparr>,
           \<lparr>l_url = ''a/z'', status = ''error'', error = Some ''Invalid IPv6 URL''\<rparr>]\<rparr>,
      pending = [], batches = [[''a/''], [''a/y'', ''a/x''], [''a/z'']], raised = None\<rparr>"
  by (simp add: crawl_def crawl_loop.simps example_defs extend_queue_def fcard_finsert_if
      fcard_fempty Let_def)

subsection \<open>What a worker reads and writes\<close>



lemma agree_sym: "agree c c' \<Longrightarrow> agree c' c"
  by (simp add: agree_def)

lemma insert_result_agree:
  "agree c c' \<Longrightarrow> snd (insert_result e c' row) = snd (insert_result e c row) \<and>
     agree (fst (insert_result e c row)) (fst (insert_result e c' row))"
  by (simp add: insert_result_def agree_def execute_raises_def Let_def split: option.splits)

lemma save_result_agree:
  assumes "agree c c'"
  shows "snd (save_result e c' u t content ip) = snd (save_result e c u t content ip) \<and>
     agree (fst (save_result e c u t content ip)) (fst (save_result e c' u t content ip))"
proof (cases "get_content_hash e content")
  case (Inl x)
  with assms show ?thesis
    by (simp add: save_result_def)
next
  case (Inr h)
  have d: "is_duplicate_content e c' h = is_duplicate_content e c h"
    using assms
    by (simp add: is_duplicate_content_def agree_def execute_raises_def split: option.splits)
  show ?thesis
  proof (cases "is_duplicate_content e c h")
    case (Inl x)
    with Inr d assms show ?thesis
      by (simp add: save_result_def)
  next
    case dup: (Inr dup)
    show ?thesis
      using Inr d dup assms insert_result_agree [OF assms, of e]
      by (simp add: save_result_def)
  qed
qed

lemma log_crawl_agree:
  "agree c c' \<Longrightarrow> snd (log_crawl e c' u s err) = snd (log_crawl e c u s err) \<and>
     agree (fst (log_crawl e c u s err)) (fst (log_crawl e c' u s err))"
  by (simp add: log_crawl_def agree_def execute_raises_def Let_def split: option.splits)

lemma extract_links_domain_only:
  "domain c' = domain c \<Longrightarrow> extract_links e c' u hs links = extract_links e c u hs links"
  by (induction e c u hs links rule: extract_links.induct) (auto split: sum.splits)

lemma crawl_page_try_agree:
  assumes "agree c c'"
  shows "snd (crawl_page_try e c' u) = snd (crawl_page_try e c u) \<and>
     agree (fst (crawl_page_try e c u)) (fst (crawl_page_try e c' u))"
proof (cases "requests_get e u")
  case (Inl x)
  with assms show ?thesis
    by (simp add: crawl_page_try_def)
next
  case p: (Inr p)
  show ?thesis
  proof (cases "urlparse_netloc e u")
    case (Inl x)
    with p assms show ?thesis
      by (simp add: crawl_page_try_def)
  next
    case (Inr ip)
    let ?t = "case title_tag p of None \<Rightarrow> Some ''No title'' | Some s \<Rightarrow> s"
    obtain c1 r1 where s: "save_result e c u ?t (response_text p) (Some ip) = (c1, r1)"
      by (cases "save_result e c u ?t (response_text p) (Some ip)")
    obtain c1' r1' where s': "save_result e c' u ?t (response_text p) (Some ip) = (c1', r1')"
      by (cases "save_result e c' u ?t (response_text p) (Some ip)")
    have 1: "r1' = r1" "agree c1 c1'"
      using save_result_agree [OF assms, of e u ?t "response_text p" "Some ip"] s s' by simp_all
    show ?thesis
    proof (cases r1)
      case (Some x)
      with p Inr s s' 1 show ?thesis
        by (simp add: crawl_page_try_def)
    next
      case None
      obtain c2 r2 where l: "log_crawl e c1 u ''success'' None = (c2, r2)"
        by (cases "log_crawl e c1 u ''success'' None")
      obtain c2' r2' where l': "log_crawl e c1' u ''success'' None = (c2', r2')"
        by (cases "log_crawl e c1' u ''success'' None")
      have 2: "r2' = r2" "agree c2 c2'"
        using log_crawl_agree [OF 1(2), of e u "''success''" None] l l' by simp_all
      show ?thesis
      proof (cases r2)
        case (Some x)
        with p Inr s s' 1 None l l' 2 show ?thesis
          by (simp add: crawl_page_try_def)
      next
        case n2: None
        have "extract_links e c2' u (hrefs p) [] = extract_links e c2 u (hrefs p) []"
          using 2(2) by (intro extract_links_domain_only) (simp add: agree_def)
        with p Inr s s' 1 None l l' 2 n2 show ?thesis
          by (simp add: crawl_page_try_def)
      qed
    qed
  qed
qed

lemma crawl_page_agree:
  assumes "agree c c'"
  shows "snd (crawl_page e c' u) = snd (crawl_page e c u) \<and>
     agree (fst (crawl_page e c u)) (fst (crawl_page e c' u))"
proof -
  obtain c1 r where t: "crawl_page_try e c u = (c1, r)"
    by (cases "crawl_page_try e c u")
  obtain c1' r' where t': "crawl_page_try e c' u = (c1', r')"
    by (cases "crawl_page_try e c' u")
  have 1: "r' = r" "agree c1 c1'"
    using crawl_page_try_agree [OF assms, of e u] t t' by simp_all
  show ?thesis
  proof (cases r)
    case (Inr links)
    with t t' 1 show ?thesis
      by (simp add: crawl_page_def)
  next
    case (Inl x)
    obtain c2 r2 where l: "log_crawl e c1 u ''error'' (Some x) = (c2, r2)"
      by (cases "log_crawl e c1 u ''error'' (Some x)")
    obtain c2' r2' where l': "log_crawl e c1' u ''error'' (Some x) = (c2', r2')"
      by (cases "log_crawl e c1' u ''error'' (Some x)")
    have 2: "r2' = r2" "agree c2 c2'"
      using log_crawl_agree [OF 1(2), of e u "''error''" "Some x"] l l' by simp_all
    show ?thesis
      using t t' 1 Inl l l' 2 by (cases r2) (simp_all add: crawl_page_def)
  qed
qed

lemma run_batch_agree:
  "agree c c' \<Longrightarrow> snd (run_batch e c' us) = snd (run_batch e c us) \<and>
     agree (fst (run_batch e c us)) (fst (run_batch e c' us))"
proof (induction us arbitrary: c c')
  case Nil
  then show ?case by simp
next
  case (Cons u us)
  obtain c1 r where p: "crawl_page e c u = (c1, r)"
    by (cases "crawl_page e c u")
  obtain c1' r' where p': "crawl_page e c' u = (c1', r')"
    by (cases "crawl_page e c' u")
  have 1: "r' = r" "agree c1 c1'"
    using crawl_page_agree [OF Cons.prems, of e u] p p' by simp_all
  obtain c2 rest where b: "run_batch e c1 us = (c2, rest)"
    by (cases "run_batch e c1 us")
  obtain c2' rest' where b': "run_batch e c1' us = (c2', rest')"
    by (cases "run_batch e c1' us")
  have "rest' = rest" "agree c2 c2'"
    using Cons.IH [OF 1(2)] b b' by simp_all
  with p p' 1 b b' show ?case by simp
qed



text \<open>What each method appends.\<close>

lemma insert_result_tables:
  "\<exists>rows. (rows = [] \<or> rows = [row]) \<and>
     crawl_results (fst (insert_result e c row)) = crawl_results c @ rows \<and>
     crawl_logs (fst (insert_result e c row)) = crawl_logs c"
  by (simp add: insert_result_def Let_def split: option.splits)

lemma save_result_tables:
  "\<exists>rows. length rows \<le> 1 \<and> set (map r_url rows) \<subseteq> {u} \<and>
     crawl_results (fst (save_result e c u t content ip)) = crawl_results c @ rows \<and>
     crawl_logs (fst (save_result e c u t content ip)) = crawl_logs c"
proof (cases "get_content_hash e content")
  case (Inl x)
  then show ?thesis
    by (simp add: save_result_def)
next
  case (Inr h)
  show ?thesis
  proof (cases "is_duplicate_content e c h")
    case (Inl x)
    with Inr show ?thesis
      by (simp add: save_result_def)
  next
    case dup: (Inr dup)
    let ?row = "\<lparr>r_url = u, r_title = t, content_hash = h, ip_address = ip\<rparr>"
    obtain rows where "rows = [] \<or> rows = [?row]"
      "crawl_results (fst (insert_result e c ?row)) = crawl_results c @ rows"
      "crawl_logs (fst (insert_result e c ?row)) = crawl_logs c"
      using insert_result_tables [of ?row e c] by blast
    then have "length rows \<le> 1 \<and> set (map r_url rows) \<subseteq> {u} \<and>
        crawl_results (fst (insert_result e c ?row)) = crawl_results c @ rows \<and>
        crawl_logs (fst (insert_result e c ?row)) = crawl_logs c"
      by auto
    then show ?thesis
      using Inr dup by (cases dup) (auto simp: save_result_def)
  qed
qed

lemma log_crawl_tables:
  "\<exists>entries. (entries = [] \<or> entries = [\<lparr>l_url = u, status = s, error = err\<rparr>]) \<and>
     crawl_logs (fst (log_crawl e c u s err)) = crawl_logs c @ entries \<and>
     crawl_results (fst (log_crawl e c u s err)) = crawl_results c"
  by (simp add: log_crawl_def Let_def split: option.splits)

lemma crawl_page_try_tables:
  "\<exists>rows entries. length rows \<le> 1 \<and> set (map r_url rows) \<subseteq> {u} \<and>
     (entries = [] \<or> entries = [\<lparr>l_url = u, status = ''success'', error = None\<rparr>]) \<and>
     crawl_results (fst (crawl_page_try e c u)) = crawl_results c @ rows \<and>
     crawl_logs (fst (crawl_page_try e c u)) = crawl_logs c @ entries"
proof (cases "requests_get e u")
  case (Inl x)
  then show ?thesis
    by (simp add: crawl_page_try_def)
next
  case p: (Inr p)
  show ?thesis
  proof (cases "urlparse_netloc e u")
    case (Inl x)
    with p show ?thesis
      by (simp add: crawl_page_try_def)
  next
    case (Inr ip)
    let ?t = "case title_tag p of None \<Rightarrow> Some ''No title'' | Some s \<Rightarrow> s"
    obtain c1 r1 where s: "save_result e c u ?t (response_text p) (Some ip) = (c1, r1)"
      by (cases "save_result e c u ?t (response_text p) (Some ip)")
    obtain rows where rows: "length rows \<le> 1" "set (map r_url rows) \<subseteq> {u}"
      "crawl_results c1 = crawl_results c @ rows" "crawl_logs c1 = crawl_logs c"
      using save_result_tables [of u e c ?t "response_text p" "Some ip"] s by auto
    show ?thesis
    proof (cases r1)
      case (Some x)
      with p Inr s have "fst (crawl_page_try e c u) = c1"
        by (simp add: crawl_page_try_def)
      with rows show ?thesis
        by (intro exI [of _ rows] exI [of _ "[]"]) simp
    next
      case None
      obtain c2 r2 where l: "log_crawl e c1 u ''success'' None = (c2, r2)"
        by (cases "log_crawl e c1 u ''success'' None")
      obtain entries where entries:
        "entries = [] \<or> entries = [\<lparr>l_url = u, status = ''success'', error = None\<rparr>]"
        "crawl_logs c2 = crawl_logs c1 @ entries" "crawl_results c2 = crawl_results c1"
        using log_crawl_tables [of u "''success''" None e c1] l by auto
      from p Inr s None l have "fst (crawl_page_try e c u) = c2"
        by (cases r2) (simp_all add: crawl_page_try_def)
      with rows entries show ?thesis
        by (intro exI [of _ rows] exI [of _ entries]) simp
    qed
  qed
qed

lemma crawl_page_tables:
  "\<exists>rows entries. length rows \<le> 1 \<and> set (map r_url rows) \<subseteq> {u} \<and>
     length entries \<le> 2 \<and> set (map l_url entries) \<subseteq> {u} \<and>
     set (map status entries) \<subseteq> {''success'', ''error''} \<and>
     crawl_results (fst (crawl_page e c u)) = crawl_results c @ rows \<and>
     crawl_logs (fst (crawl_page e c u)) = crawl_logs c @ entries"
proof -
  obtain c1 r where t: "crawl_page_try e c u = (c1, r)"
    by (cases "crawl_page_try e c u")
  obtain rows entries where 1: "length rows \<le> 1" "set (map r_url rows) \<subseteq> {u}"
    "entries = [] \<or> entries = [\<lparr>l_url = u, status = ''success'', error = None\<rparr>]"
    "crawl_results c1 = crawl_results c @ rows" "crawl_logs c1 = crawl_logs c @ entries"
    using crawl_page_try_tables [of u e c] t by auto
  show ?thesis
  proof (cases r)
    case (Inr links)
    with t have "fst (crawl_page e c u) = c1"
      by (simp add: crawl_page_def)
    with 1 show ?thesis
      by (intro exI [of _ rows] exI [of _ entries]) auto
  next
    case (Inl x)
    obtain c2 r2 where l: "log_crawl e c1 u ''error'' (Some x) = (c2, r2)"
      by (cases "log_crawl e c1 u ''error'' (Some x)")
    obtain entries2 where 2:
      "entries2 = [] \<or> entries2 = [\<lparr>l_url = u, status = ''error'', error = Some x\<rparr>]"
      "crawl_logs c2 = crawl_logs c1 @ entries2" "crawl_results c2 = crawl_results c1"
      using log_crawl_tables [of u "''error''" "Some x" e c1] l by auto
    from t Inl l have "fst (crawl_page e c u) = c2"
      by (cases r2) (simp_all add: crawl_page_def)
    with 1 2 show ?thesis
      by (intro exI [of _ rows] exI [of _ "entries @ entries2"]) auto
  qed
qed




subsection \<open>C2: one log entry for every dispatched URL\<close>

text \<open>
  C2 asks for exactly one log entry for every URL given to a worker, also when
  link extraction fails after the fetch. The success entry is written at line 101,
  inside the \<^verbatim>\<open>try\<close>, before the links are extracted; an exception raised by
  the extraction reaches the handler of line 114, which writes an error entry for
  the same URL. Below, the page \<open>a/z\<close> has an anchor that \<^verbatim>\<open>urljoin\<close>
  refuses: two entries, success and then error. With the method of line 109 left
  undefined, as the file has it, the same happens on every page that has an anchor
  with a non-empty href, here the seed.
\<close>

theorem crawl_page_logs_success_then_error:
  "crawl_logs (fst (crawl_page (with_spec_filter example_env) (example_crawler 2) ''a/z'')) =
     [\<lparr>l_url = ''a/z'', status = ''success'', error = None\<rparr>,
      \<lparr>l_url = ''a/z'', status = ''error'', error = Some ''Invalid IPv6 URL''\<rparr>] \<and>
   crawl_logs (fst (crawl_page example_env (example_crawler 2) ''a/'')) =
     [\<lparr>l_url = ''a/'', status = ''success'', error = None\<rparr>,
      \<lparr>l_url = ''a/'', status = ''error'', error = Some attribute_error_text\<rparr>]"
  by (simp add: example_defs)

subsection \<open>C4: no URL is dispatched twice\<close>

text \<open>
  C4: within one call of \<^verbatim>\<open>crawl\<close> no URL is given to a worker more than once.
  The URLs of all batches, in order, are pairwise different and none was visited
  before the call; the visited set only grows, by exactly those URLs; and the
  selection of a batch returns the visited set with the batch already in it, before
  any worker runs.
\<close>

theorem no_url_dispatched_twice:
  "distinct (concat (batches (crawl e c max_pages))) \<and>
   fset_of_list (concat (batches (crawl e c max_pages))) |\<inter>| visited c = {||} \<and>
   visited (final (crawl e c max_pages)) =
     visited c |\<union>| fset_of_list (concat (batches (crawl e c max_pages))) \<and>
   (case take_batch mw vis queue [] of
      (vis', queue', batch) \<Rightarrow>
        vis' = vis |\<union>| fset_of_list batch \<and> distinct batch \<and> fset_of_list batch |\<inter>| vis = {||})"
proof -
  obtain vis' queue' batch where tb: "take_batch mw vis queue [] = (vis', queue', batch)"
    by (cases "take_batch mw vis queue []")
  have "vis' = vis |\<union>| fset_of_list batch \<and> distinct batch \<and> fset_of_list batch |\<inter>| vis = {||}"
    using take_batch_fresh(1,2,3) [OF tb] by simp
  moreover have "distinct (concat (batches (crawl e c max_pages))) \<and>
     fset_of_list (concat (batches (crawl e c max_pages))) |\<inter>| visited c = {||} \<and>
     visited (final (crawl e c max_pages)) =
       visited c |\<union>| fset_of_list (concat (batches (crawl e c max_pages)))"
    using crawl_loop_dispatch [of e max_pages c "[start_url c]"] by (simp add: crawl_def)
  ultimately show ?thesis
    by (simp add: tb)
qed

subsection \<open>C8: the budget is checked before each batch\<close>

text \<open>
  C8: once the visited set has reached \<open>max_pages\<close> the loop starts no batch, from
  any state and queue; a batch has at most \<open>max_workers\<close> URLs; and at the end the
  visited set has at most \<open>max_pages + max_workers - 1\<close> URLs, unless it had more
  when \<^verbatim>\<open>crawl\<close> was called.
\<close>

theorem budget_checked_before_each_batch:
  "(max_pages \<le> int (fcard (visited c)) \<longrightarrow>
      crawl_loop e max_pages c queue =
        \<lparr>final = c, pending = queue, batches = [], raised = None\<rparr>) \<and>
   int (fcard (visited (final (crawl e c max_pages)))) \<le>
     max (int (fcard (visited c))) (max_pages + max_workers c - 1) \<and>
   list_all (\<lambda>b. int (length b) \<le> max_workers c) (batches (crawl e c max_pages))"
proof -
  have "max_pages \<le> int (fcard (visited c)) \<longrightarrow>
      crawl_loop e max_pages c queue =
        \<lparr>final = c, pending = queue, batches = [], raised = None\<rparr>"
    by (simp add: crawl_loop_stop)
  moreover have "int (fcard (visited (final (crawl e c max_pages)))) \<le>
       max (int (fcard (visited c))) (max_pages + max_workers c - 1) \<and>
     list_all (\<lambda>b. int (length b) \<le> max_workers c) (batches (crawl e c max_pages))"
    using crawl_loop_budget [of e max_pages c "[start_url c]"] by (simp add: crawl_def)
  ultimately show ?thesis
    by blast
qed

theorem budget_checked_before_each_batch_witness:
  "3 \<le> int (fcard (visited (final (crawl (with_spec_filter example_env) (example_crawler 2) 3)))) \<and>
   crawl_loop (with_spec_filter example_env) 3
       (final (crawl (with_spec_filter example_env) (example_crawler 2) 3)) [''a/z'', ''a/z''] =
     \<lparr>final = final (crawl (with_spec_filter example_env) (example_crawler 2) 3),
      pending = [''a/z'', ''a/z''], batches = [], raised = None\<rparr> \<and>
   int (fcard (visited (final (crawl (with_spec_filter example_env) (example_crawler 2) 3)))) \<le> 4"
  using budget_checked_before_each_batch [where max_pages = 3
      and c = "final (crawl (with_spec_filter example_env) (example_crawler 2) 3)"
      and e = "with_spec_filter example_env" and queue = "[''a/z'', ''a/z'']"]
  by (simp add: example_run_3 fcard_finsert_if fcard_fempty)

subsection \<open>C9: the loop ends\<close>

text \<open>
  C9: \<open>crawl_loop\<close> is a total function, by the measure
  \<open>max_pages - |visited|\<close>. The number of batches of a call is at most that
  measure at the start, no batch is empty, every dispatched URL makes the visited set
  larger by one, and a call that ends without an exception has emptied the queue or
  reached the budget.
\<close>

theorem crawl_ends_after_finitely_many_batches:
  "length (batches (crawl e c max_pages)) \<le> nat (max_pages - int (fcard (visited c))) \<and>
   [] \<notin> set (batches (crawl e c max_pages)) \<and>
   fcard (visited (final (crawl e c max_pages))) =
     fcard (visited c) + length (concat (batches (crawl e c max_pages))) \<and>
   (raised (crawl e c max_pages) = None \<longrightarrow>
      pending (crawl e c max_pages) = [] \<or>
      max_pages \<le> int (fcard (visited (final (crawl e c max_pages)))))"
proof (cases "max_workers c \<le> 0")
  case True
  then show ?thesis
    by (simp add: crawl_def)
next
  case False
  let ?r = "crawl_loop e max_pages c [start_url c]"
  from False have r: "crawl e c max_pages = ?r"
    by (simp add: crawl_def)
  have "fcard (visited c |\<union>| fset_of_list (concat (batches ?r))) =
      fcard (visited c) + fcard (fset_of_list (concat (batches ?r)))"
    using crawl_loop_dispatch [of e max_pages c "[start_url c]"]
    by (intro fcard_funion_disjoint) (simp add: inf_commute)
  then have "fcard (visited (final ?r)) = fcard (visited c) + length (concat (batches ?r))"
    using crawl_loop_dispatch [of e max_pages c "[start_url c]"]
    by (simp add: fcard_fset_of_list_distinct)
  moreover have "raised ?r = None \<longrightarrow>
      pending ?r = [] \<or> max_pages \<le> int (fcard (visited (final ?r)))"
    using crawl_loop_ends [of c e max_pages "[start_url c]"] False by simp
  ultimately show ?thesis
    using crawl_loop_progress [of e max_pages c "[start_url c]"] unfolding r by blast
qed

theorem crawl_ends_after_finitely_many_batches_witness:
  "raised (crawl (with_spec_filter example_env) (example_crawler 2) 10) = None \<and>
   length (batches (crawl (with_spec_filter example_env) (example_crawler 2) 10)) \<le> 10 \<and>
   fcard (visited (final (crawl (with_spec_filter example_env) (example_crawler 2) 10))) = 4 \<and>
   pending (crawl (with_spec_filter example_env) (example_crawler 2) 10) = []"
  using crawl_ends_after_finitely_many_batches
    [of "with_spec_filter example_env" "example_crawler 2" 10]
  by (simp add: example_run_10 fcard_finsert_if fcard_fempty)

subsection \<open>C5: the worker and the store\<close>






subsection \<open>C3: one record for one content hash\<close>













subsection \<open>C6: a page that fails\<close>







lemma crawl_page_logs_grow:
  "set (crawl_logs c) \<subseteq> set (crawl_logs (fst (crawl_page e c u)))"
  using crawl_page_tables [of u e c] by auto







subsection \<open>C7: what is offered to the queue\<close>


text \<open>The links that the \<^verbatim>\<open>try\<close> block returns are those of the extraction loop.\<close>

lemma crawl_page_try_links:
  assumes "crawl_page_try e c u = (c1, Inr links)"
  shows "\<exists>p. requests_get e u = Inr p \<and> extract_links e c u (hrefs p) [] = Inr links"
proof (cases "requests_get e u")
  case (Inl x)
  with assms show ?thesis
    by (simp add: crawl_page_try_def)
next
  case p: (Inr p)
  show ?thesis
  proof (cases "urlparse_netloc e u")
    case (Inl x)
    with p assms show ?thesis
      by (simp add: crawl_page_try_def)
  next
    case (Inr ip)
    let ?t = "case title_tag p of None \<Rightarrow> Some ''No title'' | Some s \<Rightarrow> s"
    obtain c2 r2 where s: "save_result e c u ?t (response_text p) (Some ip) = (c2, r2)"
      by (cases "save_result e c u ?t (response_text p) (Some ip)")
    obtain c3 r3 where l: "log_crawl e c2 u ''success'' None = (c3, r3)"
      by (cases "log_crawl e c2 u ''success'' None")
    have "same_but_tables c c2"
      using save_result_same [of c e u ?t "response_text p" "Some ip"] s by simp
    moreover have "same_but_tables c2 c3"
      using log_crawl_same [of c2 e u "''success''" None] l by simp
    ultimately have "same_but_tables c c3"
      by (rule same_but_tables_trans)
    then have d: "domain c3 = domain c"
      by (simp add: same_but_tables_def)
    have "r2 = None \<and> r3 = None \<and> extract_links e c3 u (hrefs p) [] = Inr links"
      using assms p Inr s l
      by (cases r2; cases r3) (simp_all add: crawl_page_try_def)
    with extract_links_domain_only [OF d, of e u "hrefs p" "[]"] p show ?thesis
      by simp
  qed
qed

lemma crawl_page_links:
  assumes "snd (crawl_page e c u) = Inr links"
  shows "links = [] \<or> (\<exists>p. requests_get e u = Inr p \<and> extract_links e c u (hrefs p) [] = Inr links)"
proof -
  obtain c1 r where t: "crawl_page_try e c u = (c1, r)"
    by (cases "crawl_page_try e c u")
  show ?thesis
  proof (cases r)
    case (Inl x)
    obtain c2 r2 where l: "log_crawl e c1 u ''error'' (Some x) = (c2, r2)"
      by (cases "log_crawl e c1 u ''error'' (Some x)")
    from assms t Inl l have "links = []"
      by (cases r2) (simp_all add: crawl_page_def)
    then show ?thesis by simp
  next
    case (Inr ls)
    with assms t have "ls = links"
      by (simp add: crawl_page_def)
    with crawl_page_try_links [of e c u c1 links] t Inr show ?thesis
      by simp
  qed
qed






subsection \<open>C10: the database configuration\<close>

lemma db_config_carried:
  "agree a a' \<Longrightarrow> same_but_tables c a \<Longrightarrow> same_but_tables (c\<lparr>db_config := d\<rparr>) a' \<Longrightarrow>
     a' = a\<lparr>db_config := d\<rparr>"
  by (rule crawler.equality) (simp_all add: same_but_tables_def agree_def)

lemma db_config_visited_commute:
  "c\<lparr>db_config := d\<rparr>\<lparr>visited := vis\<rparr> = c\<lparr>visited := vis\<rparr>\<lparr>db_config := d\<rparr>"
  by (rule crawler.equality) simp_all

lemma save_result_db_config:
  "save_result e (c\<lparr>db_config := d\<rparr>) u t content ip =
     ((fst (save_result e c u t content ip))\<lparr>db_config := d\<rparr>,
      snd (save_result e c u t content ip))"
proof -
  have a: "agree c (c\<lparr>db_config := d\<rparr>)"
    by (simp add: agree_def)
  have "fst (save_result e (c\<lparr>db_config := d\<rparr>) u t content ip) =
      (fst (save_result e c u t content ip))\<lparr>db_config := d\<rparr>"
    using save_result_agree [OF a, of e u t content ip] save_result_same [of c e u t content ip]
      save_result_same [of "c\<lparr>db_config := d\<rparr>" e u t content ip]
    by (intro db_config_carried) simp_all
  moreover have "snd (save_result e (c\<lparr>db_config := d\<rparr>) u t content ip) =
      snd (save_result e c u t content ip)"
    using save_result_agree [OF a, of e u t content ip] by simp
  ultimately show ?thesis
    by (simp add: prod_eq_iff)
qed

lemma log_crawl_db_config:
  "log_crawl e (c\<lparr>db_config := d\<rparr>) u s err =
     ((fst (log_crawl e c u s err))\<lparr>db_config := d\<rparr>, snd (log_crawl e c u s err))"
  by (simp add: log_crawl_def execute_raises_def Let_def split: option.splits)

lemma crawl_page_db_config:
  "crawl_page e (c\<lparr>db_config := d\<rparr>) u =
     ((fst (crawl_page e c u))\<lparr>db_config := d\<rparr>, snd (crawl_page e c u))"
proof -
  have a: "agree c (c\<lparr>db_config := d\<rparr>)"
    by (simp add: agree_def)
  have "fst (crawl_page e (c\<lparr>db_config := d\<rparr>) u) = (fst (crawl_page e c u))\<lparr>db_config := d\<rparr>"
    using crawl_page_agree [OF a, of e u] crawl_page_same [of c e u]
      crawl_page_same [of "c\<lparr>db_config := d\<rparr>" e u]
    by (intro db_config_carried) simp_all
  moreover have "snd (crawl_page e (c\<lparr>db_config := d\<rparr>) u) = snd (crawl_page e c u)"
    using crawl_page_agree [OF a, of e u] by simp
  ultimately show ?thesis
    by (simp add: prod_eq_iff)
qed

lemma run_batch_db_config:
  "run_batch e (c\<lparr>db_config := d\<rparr>) us =
     ((fst (run_batch e c us))\<lparr>db_config := d\<rparr>, snd (run_batch e c us))"
proof -
  have a: "agree c (c\<lparr>db_config := d\<rparr>)"
    by (simp add: agree_def)
  have "fst (run_batch e (c\<lparr>db_config := d\<rparr>) us) = (fst (run_batch e c us))\<lparr>db_config := d\<rparr>"
    using run_batch_agree [OF a, of e us] run_batch_same [of c e us]
      run_batch_same [of "c\<lparr>db_config := d\<rparr>" e us]
    by (intro db_config_carried) simp_all
  moreover have "snd (run_batch e (c\<lparr>db_config := d\<rparr>) us) = snd (run_batch e c us)"
    using run_batch_agree [OF a, of e us] by simp
  ultimately show ?thesis
    by (simp add: prod_eq_iff)
qed

lemma crawl_loop_db_config:
  "crawl_loop e max_pages (c\<lparr>db_config := d\<rparr>) queue =
     (crawl_loop e max_pages c queue)
       \<lparr>final := (final (crawl_loop e max_pages c queue))\<lparr>db_config := d\<rparr>\<rparr>"
proof (induction c queue rule: crawl_loop_rule [where e = e and max_pages = max_pages])
  case (stop c queue)
  then have "queue = [] \<or> \<not> int (fcard (visited (c\<lparr>db_config := d\<rparr>))) < max_pages"
    by simp
  from crawl_loop_stop [OF this] show ?case
    by simp
next
  case (empty_batch c queue vis queue1)
  have "crawl_loop e max_pages (c\<lparr>db_config := d\<rparr>) queue =
      \<lparr>final = c\<lparr>db_config := d\<rparr>\<lparr>visited := vis\<rparr>, pending = queue1, batches = [],
       raised = None\<rparr>"
    using empty_batch by (intro crawl_loop_empty_batch) simp_all
  then show ?case
    by (simp add: db_config_visited_commute)
next
  case (worker_raises c queue vis queue1 batch c2 results queue2 x)
  have rb: "run_batch e (c\<lparr>db_config := d\<rparr>\<lparr>visited := vis\<rparr>) batch = (c2\<lparr>db_config := d\<rparr>, results)"
    using run_batch_db_config [where e = e and c = "c\<lparr>visited := vis\<rparr>" and d = d and us = batch] worker_raises(5)
    by (simp add: db_config_visited_commute)
  have q: "queue \<noteq> []" and b: "int (fcard (visited (c\<lparr>db_config := d\<rparr>))) < max_pages"
    and tb: "take_batch (max_workers (c\<lparr>db_config := d\<rparr>)) (visited (c\<lparr>db_config := d\<rparr>)) queue [] =
      (vis, queue1, batch)"
    and co: "collect (visited (c2\<lparr>db_config := d\<rparr>)) queue1 results = (queue2, Some x)"
    using worker_raises(1-3,6) by simp_all
  have "crawl_loop e max_pages (c\<lparr>db_config := d\<rparr>) queue =
      \<lparr>final = c2\<lparr>db_config := d\<rparr>, pending = queue2, batches = [batch], raised = Some x\<rparr>"
    by (rule crawl_loop_worker_raises [OF q b tb worker_raises(4) rb co])
  then show ?case
    by simp
next
  case (sleep_raises c queue vis queue1 batch c2 results queue2 x)
  have rb: "run_batch e (c\<lparr>db_config := d\<rparr>\<lparr>visited := vis\<rparr>) batch = (c2\<lparr>db_config := d\<rparr>, results)"
    using run_batch_db_config [where e = e and c = "c\<lparr>visited := vis\<rparr>" and d = d and us = batch] sleep_raises(5)
    by (simp add: db_config_visited_commute)
  have q: "queue \<noteq> []" and b: "int (fcard (visited (c\<lparr>db_config := d\<rparr>))) < max_pages"
    and tb: "take_batch (max_workers (c\<lparr>db_config := d\<rparr>)) (visited (c\<lparr>db_config := d\<rparr>)) queue [] =
      (vis, queue1, batch)"
    and co: "collect (visited (c2\<lparr>db_config := d\<rparr>)) queue1 results = (queue2, None)"
    and sl: "time_sleep e (delay (c2\<lparr>db_config := d\<rparr>)) = Some x"
    using sleep_raises(1-3,6,7) by simp_all
  have "crawl_loop e max_pages (c\<lparr>db_config := d\<rparr>) queue =
      \<lparr>final = c2\<lparr>db_config := d\<rparr>, pending = queue2, batches = [batch], raised = Some x\<rparr>"
    by (rule crawl_loop_sleep_raises [OF q b tb sleep_raises(4) rb co sl])
  then show ?case
    by simp
next
  case (step c queue vis queue1 batch c2 results queue2 r)
  have rb: "run_batch e (c\<lparr>db_config := d\<rparr>\<lparr>visited := vis\<rparr>) batch = (c2\<lparr>db_config := d\<rparr>, results)"
    using run_batch_db_config [where e = e and c = "c\<lparr>visited := vis\<rparr>" and d = d and us = batch] step(5)
    by (simp add: db_config_visited_commute)
  have q: "queue \<noteq> []" and b: "int (fcard (visited (c\<lparr>db_config := d\<rparr>))) < max_pages"
    and tb: "take_batch (max_workers (c\<lparr>db_config := d\<rparr>)) (visited (c\<lparr>db_config := d\<rparr>)) queue [] =
      (vis, queue1, batch)"
    and co: "collect (visited (c2\<lparr>db_config := d\<rparr>)) queue1 results = (queue2, None)"
    and sl: "time_sleep e (delay (c2\<lparr>db_config := d\<rparr>)) = None"
    using step(1-3,6,7) by simp_all
  have "crawl_loop e max_pages (c\<lparr>db_config := d\<rparr>) queue =
      (crawl_loop e max_pages (c2\<lparr>db_config := d\<rparr>) queue2)
        \<lparr>batches := batch # batches (crawl_loop e max_pages (c2\<lparr>db_config := d\<rparr>) queue2)\<rparr>"
    by (rule crawl_loop_step [OF q b tb step(4) rb co sl])
  with step(9) show ?case
    by simp
qed

text \<open>
  C10: the configuration given to the constructor is stored and never read. Two
  crawlers that differ in it only are constructed alike, and every method (the
  duplicate test, \<^verbatim>\<open>save_result\<close>, \<^verbatim>\<open>log_crawl\<close>, a worker call and a
  whole call of \<^verbatim>\<open>crawl\<close> on them return the same values, dispatch the same
  batches, raise the same exception if any, and leave the same tables, visited set
  and queue: the final objects differ in the stored configuration and in nothing
  else.
\<close>

theorem db_config_is_never_read:
  "init e rows logs su cfg' dl mw =
     map_sum id (\<lambda>c. c\<lparr>db_config := cfg'\<rparr>) (init e rows logs su cfg dl mw) \<and>
   is_duplicate_content e (c\<lparr>db_config := d\<rparr>) h = is_duplicate_content e c h \<and>
   save_result e (c\<lparr>db_config := d\<rparr>) u t content ip =
     ((fst (save_result e c u t content ip))\<lparr>db_config := d\<rparr>,
      snd (save_result e c u t content ip)) \<and>
   log_crawl e (c\<lparr>db_config := d\<rparr>) u s err =
     ((fst (log_crawl e c u s err))\<lparr>db_config := d\<rparr>, snd (log_crawl e c u s err)) \<and>
   crawl_page e (c\<lparr>db_config := d\<rparr>) u =
     ((fst (crawl_page e c u))\<lparr>db_config := d\<rparr>, snd (crawl_page e c u)) \<and>
   crawl e (c\<lparr>db_config := d\<rparr>) max_pages =
     (crawl e c max_pages)\<lparr>final := (final (crawl e c max_pages))\<lparr>db_config := d\<rparr>\<rparr>"
proof -
  have "init e rows logs su cfg' dl mw =
      map_sum id (\<lambda>c. c\<lparr>db_config := cfg'\<rparr>) (init e rows logs su cfg dl mw)"
    by (simp add: init_def split: sum.splits)
  moreover have "crawl e (c\<lparr>db_config := d\<rparr>) max_pages =
      (crawl e c max_pages)\<lparr>final := (final (crawl e c max_pages))\<lparr>db_config := d\<rparr>\<rparr>"
    using crawl_loop_db_config [where c = c and queue = "[start_url c]"]
    by (simp add: crawl_def)
  moreover have "is_duplicate_content e (c\<lparr>db_config := d\<rparr>) h = is_duplicate_content e c h"
    by (simp add: is_duplicate_content_def execute_raises_def split: option.splits)
  ultimately show ?thesis
    using crawl_page_db_config [where e = e and c = c and d = d and u = u]
      save_result_db_config [where e = e and c = c and d = d and u = u and t = t
        and content = content and ip = ip]
      log_crawl_db_config [where e = e and c = c and d = d and u = u and s = s and err = err]
    by simp
qed

subsection \<open>C1: links of the domain only\<close>

lemma extract_links_in_domain:
  "is_valid_url e = is_valid_url_spec e0 \<Longrightarrow> extract_links e c u hs links = Inr ls \<Longrightarrow>
     set ls \<subseteq> set links \<union> {l. urlparse_netloc e0 l = Inr (domain c)}"
proof (induction e c u hs links arbitrary: ls rule: extract_links.induct)
  case (1 e c u links)
  then show ?case by simp
next
  case (2 e c u hs links)
  then show ?case by simp
next
  case (3 e c u href hs links)
  show ?case
  proof (cases "href = []")
    case True
    with 3 show ?thesis by simp
  next
    case False
    with "3.prems"(2) obtain absolute_url where j: "urljoin e u href = Inr absolute_url"
      by (cases "urljoin e u href") simp_all
    with False "3.prems"(2) obtain ok where v: "is_valid_url e (domain c) absolute_url = Inr ok"
      by (cases "is_valid_url e (domain c) absolute_url") simp_all
    let ?links = "if ok then List.insert absolute_url links else links"
    have r: "extract_links e c u hs ?links = Inr ls"
      using False j v "3.prems"(2) by simp
    have "set ls \<subseteq> set ?links \<union> {l. urlparse_netloc e0 l = Inr (domain c)}"
      using "3.IH"(2) [OF False j v "3.prems"(1) r] .
    moreover have "ok \<Longrightarrow> urlparse_netloc e0 absolute_url = Inr (domain c)"
      using v "3.prems"(1) by (auto simp: is_valid_url_spec_def split: sum.splits)
    ultimately show ?thesis
      by (auto split: if_splits)
  qed
qed

lemma extract_links_undefined_method:
  "is_valid_url e = undefined_method \<Longrightarrow> extract_links e c u hs links = Inr ls \<Longrightarrow> ls = links"
  by (induction e c u hs links rule: extract_links.induct)
    (auto simp: undefined_method_def split: if_splits sum.splits)

lemma crawl_page_links_in_domain:
  assumes "snd (crawl_page (with_spec_filter e) c u) = Inr links"
  shows "set links \<subseteq> {l. urlparse_netloc e l = Inr (domain c)}"
proof -
  have v: "is_valid_url (with_spec_filter e) = is_valid_url_spec e"
    by (simp add: with_spec_filter_def)
  from crawl_page_links [OF assms] extract_links_in_domain [OF v, of c u _ "[]" links]
  show ?thesis by auto
qed

lemma run_batch_links_in_domain:
  "Inr links \<in> set (snd (run_batch (with_spec_filter e) c us)) \<Longrightarrow>
     set links \<subseteq> {l. urlparse_netloc e l = Inr (domain c)}"
proof (induction us arbitrary: c)
  case Nil
  then show ?case by simp
next
  case (Cons u us)
  obtain c1 r where p: "crawl_page (with_spec_filter e) c u = (c1, r)"
    by (cases "crawl_page (with_spec_filter e) c u")
  obtain c2 rest where b: "run_batch (with_spec_filter e) c1 us = (c2, rest)"
    by (cases "run_batch (with_spec_filter e) c1 us")
  have d: "domain c1 = domain c"
    using same_but_tables_fields(3) [OF crawl_page_same [of c "with_spec_filter e" u]] p
    by simp
  from Cons.prems p b have "r = Inr links \<or> Inr links \<in> set rest"
    by auto
  then show ?case
  proof
    assume "r = Inr links"
    with p crawl_page_links_in_domain [of e c u links] show ?thesis
      by simp
  next
    assume "Inr links \<in> set rest"
    with Cons.IH [of c1] b d show ?thesis
      by simp
  qed
qed

lemma collect_subset:
  "(\<And>links. Inr links \<in> set results \<Longrightarrow> set links \<subseteq> D) \<Longrightarrow>
     set (fst (collect vis queue results)) \<subseteq> set queue \<union> D"
proof (induction results arbitrary: queue)
  case Nil
  show ?case by simp
next
  case (Cons r results)
  show ?case
  proof (cases r)
    case (Inl x)
    then show ?thesis by simp
  next
    case (Inr links)
    have "set (fst (collect vis (extend_queue vis queue links) results))
        \<subseteq> set (extend_queue vis queue links) \<union> D"
      using Cons.prems by (intro Cons.IH) simp
    moreover have "set links \<subseteq> D"
      using Cons.prems [of links] Inr by simp
    ultimately show ?thesis
      using Inr by (auto simp: extend_queue_def)
  qed
qed

lemma batch_in_domain:
  assumes "take_batch (max_workers c) (visited c) queue [] = (vis, queue1, batch)"
    and "run_batch (with_spec_filter e) (c\<lparr>visited := vis\<rparr>) batch = (c2, results)"
    and "collect (visited c2) queue1 results = (queue2, w)"
  shows "set batch \<subseteq> set queue"
    and "set queue2 \<subseteq> set queue \<union> {l. urlparse_netloc e l = Inr (domain c)}"
    and "domain c2 = domain c"
proof -
  show "set batch \<subseteq> set queue"
    using take_batch_fresh(4) [OF assms(1)] .
  have "set (fst (collect (visited c2) queue1 results))
      \<subseteq> set queue1 \<union> {l. urlparse_netloc e l = Inr (domain c)}"
  proof (rule collect_subset)
    fix links
    assume "Inr links \<in> set results"
    with run_batch_links_in_domain [of links e "c\<lparr>visited := vis\<rparr>" batch] assms(2)
    show "set links \<subseteq> {l. urlparse_netloc e l = Inr (domain c)}"
      by simp
  qed
  with take_batch_fresh(5) [OF assms(1)] assms(3)
  show "set queue2 \<subseteq> set queue \<union> {l. urlparse_netloc e l = Inr (domain c)}"
    by auto
  show "domain c2 = domain c"
    using run_batch_fields(3) [OF assms(2)] by simp
qed

lemma crawl_loop_in_domain:
  "set (concat (batches (crawl_loop (with_spec_filter e) max_pages c queue))) \<union>
   set (pending (crawl_loop (with_spec_filter e) max_pages c queue))
     \<subseteq> set queue \<union> {l. urlparse_netloc e l = Inr (domain c)}"
proof (induction c queue
    rule: crawl_loop_rule [where e = "with_spec_filter e" and max_pages = max_pages])
  case (stop c queue)
  show ?case by simp
next
  case (empty_batch c queue vis queue1)
  from take_batch_fresh(5) [OF empty_batch(3)] show ?case
    by auto
next
  case (worker_raises c queue vis queue1 batch c2 results queue2 x)
  from batch_in_domain(1,2) [OF worker_raises(3,5,6)] show ?case
    by auto
next
  case (sleep_raises c queue vis queue1 batch c2 results queue2 x)
  from batch_in_domain(1,2) [OF sleep_raises(3,5,6)] show ?case
    by auto
next
  case (step c queue vis queue1 batch c2 results queue2 r)
  from batch_in_domain [OF step(3,5,6)] step(9) show ?case
    by auto
qed

text \<open>
  C1, on the method \<open>is_valid_url_spec\<close> modelled from the spec in the place of
  the missing \<^verbatim>\<open>is_valid_url\<close>. Every link that a worker returns has
  exactly the domain of the crawler as its host; every URL that \<^verbatim>\<open>crawl\<close>
  dispatches or leaves in the queue is the seed or has that host; and for a crawler
  that the constructor built, the seed has that host too. On the class as the file
  has it, with the method undefined, a worker returns no link at all.
\<close>

theorem only_links_of_the_domain_are_kept:
  "(snd (crawl_page (with_spec_filter e) c u) = Inr links \<longrightarrow>
      (\<forall>l \<in> set links. urlparse_netloc e l = Inr (domain c))) \<and>
   (\<forall>l \<in> set (concat (batches (crawl (with_spec_filter e) c max_pages)) @
              pending (crawl (with_spec_filter e) c max_pages)).
      l = start_url c \<or> urlparse_netloc e l = Inr (domain c)) \<and>
   (init e rows logs su cfg dl mw = Inr c \<longrightarrow>
      start_url c = su \<and> urlparse_netloc e su = Inr (domain c)) \<and>
   (is_valid_url e = undefined_method \<and> snd (crawl_page e c u') = Inr links' \<longrightarrow> links' = [])"
proof -
  have 1: "snd (crawl_page (with_spec_filter e) c u) = Inr links \<longrightarrow>
      (\<forall>l \<in> set links. urlparse_netloc e l = Inr (domain c))"
    using crawl_page_links_in_domain [of e c u links] by auto
  have 2: "\<forall>l \<in> set (concat (batches (crawl (with_spec_filter e) c max_pages)) @
              pending (crawl (with_spec_filter e) c max_pages)).
      l = start_url c \<or> urlparse_netloc e l = Inr (domain c)"
  proof (cases "max_workers c \<le> 0")
    case True
    then show ?thesis
      by (simp add: crawl_def)
  next
    case False
    with crawl_loop_in_domain [of e max_pages c "[start_url c]"] show ?thesis
      by (auto simp: crawl_def)
  qed
  have 3: "init e rows logs su cfg dl mw = Inr c \<longrightarrow>
      start_url c = su \<and> urlparse_netloc e su = Inr (domain c)"
    by (auto simp: init_def split: sum.splits)
  have 4: "is_valid_url e = undefined_method \<and> snd (crawl_page e c u') = Inr links' \<longrightarrow>
      links' = []"
    using crawl_page_links [of e c u' links']
      extract_links_undefined_method [of e c u' _ "[]" links']
    by auto
  from 1 2 3 4 show ?thesis
    by blast
qed

theorem only_links_of_the_domain_are_kept_witness:
  "snd (crawl_page (with_spec_filter example_env) (example_crawler 2) ''a/'') =
     Inr [''a/y'', ''a/x''] \<and>
   urlparse_netloc example_env ''a/y'' = Inr ''a'' \<and>
   urlparse_netloc example_env ''a/x'' = Inr ''a'' \<and>
   urlparse_netloc example_env ''b/'' = Inr ''b'' \<and>
   concat (batches (crawl (with_spec_filter example_env) (example_crawler 2) 3)) @
     pending (crawl (with_spec_filter example_env) (example_crawler 2) 3) =
     [''a/'', ''a/y'', ''a/x'', ''a/z'', ''a/z''] \<and>
   urlparse_netloc example_env ''a/z'' = Inr ''a'' \<and>
   init example_env [] [] ''a/'' (db_config (example_crawler 2)) 1 2 = Inr (example_crawler 2) \<and>
   is_valid_url example_env = undefined_method \<and>
   snd (crawl_page example_env (example_crawler 2) ''a/'') = Inr []"
  using only_links_of_the_domain_are_kept [where e = example_env and c = "example_crawler 2"
      and u = "''a/''" and links = "[''a/y'', ''a/x'']" and max_pages = 3 and rows = "[]"
      and logs = "[]" and su = "''a/''" and cfg = "db_config (example_crawler 2)" and dl = 1
      and mw = 2 and u' = "''a/''" and links' = "[]"]
  unfolding example_run_3
  by (simp add: example_defs init_def)

end
